theory Spec2Isabelle
  imports Main "HOL-Library.Sublist"
begin

text \<open>
  The package \<^verbatim>\<open>loadenv\<close> loads a file of \<^verbatim>\<open>KEY=VALUE\<close> lines into the environment of
  the process and, with hot reload, watches the file and loads it again after a change.
  The repository holds the package twice. \<open>InitEnv\<close>, \<open>load\<close>, \<open>initWatcher\<close>, \<open>Close\<close>
  and the \<^verbatim>\<open>select\<close> of \<open>watchEvents\<close> are the same in both copies; the later copy also
  reads \<^verbatim>\<open>.env\<close> before the loop and, after a reload, compares the new content with the
  old one. The later copy is the one embedded here; the timer function of the copy in
  \<^verbatim>\<open>loadenv/main.go\<close> is \<open>reloadPlain\<close>.
\<close>

section \<open>Strings of the Go standard library\<close>

text \<open>
  A Go string is a sequence of bytes, here a \<^typ>\<open>string\<close>. The parser of the package
  uses \<^verbatim>\<open>strings.Split\<close>, \<^verbatim>\<open>strings.SplitN\<close>, \<^verbatim>\<open>strings.HasPrefix\<close> and
  \<^verbatim>\<open>strings.TrimSpace\<close>, always with a separator of one byte.
\<close>

text \<open>
  \<^verbatim>\<open>unicode.IsSpace\<close> holds of the code points U+0009 to U+000D, U+0020, U+0085, U+00A0,
  U+1680, U+2000 to U+200A, U+2028, U+2029, U+202F, U+205F and U+3000. The list gives
  their UTF-8 encodings; no encoding is a prefix of another one.
\<close>

definition spaceRunes :: "string list" where
  "spaceRunes =
     [[CHR 0x09], [CHR 0x0A], [CHR 0x0B], [CHR 0x0C], [CHR 0x0D], [CHR 0x20],
      [CHR 0xC2, CHR 0x85], [CHR 0xC2, CHR 0xA0],
      [CHR 0xE1, CHR 0x9A, CHR 0x80],
      [CHR 0xE2, CHR 0x80, CHR 0x80], [CHR 0xE2, CHR 0x80, CHR 0x81],
      [CHR 0xE2, CHR 0x80, CHR 0x82], [CHR 0xE2, CHR 0x80, CHR 0x83],
      [CHR 0xE2, CHR 0x80, CHR 0x84], [CHR 0xE2, CHR 0x80, CHR 0x85],
      [CHR 0xE2, CHR 0x80, CHR 0x86], [CHR 0xE2, CHR 0x80, CHR 0x87],
      [CHR 0xE2, CHR 0x80, CHR 0x88], [CHR 0xE2, CHR 0x80, CHR 0x89],
      [CHR 0xE2, CHR 0x80, CHR 0x8A],
      [CHR 0xE2, CHR 0x80, CHR 0xA8], [CHR 0xE2, CHR 0x80, CHR 0xA9],
      [CHR 0xE2, CHR 0x80, CHR 0xAF], [CHR 0xE2, CHR 0x81, CHR 0x9F],
      [CHR 0xE3, CHR 0x80, CHR 0x80]]"

text \<open>
  The loop of \<^verbatim>\<open>strings.TrimLeftFunc\<close>: as long as the string starts with one of the
  patterns, the pattern is cut off.
\<close>

function trimPrefixes :: "string list \<Rightarrow> string \<Rightarrow> string" where
  "trimPrefixes ps s =
     (case find (\<lambda>p. p \<noteq> [] \<and> prefix p s) ps of
        None \<Rightarrow> s
      | Some p \<Rightarrow> trimPrefixes ps (drop (length p) s))"
  by pat_completeness auto
termination
proof (relation "measure (\<lambda>(ps, s). length s)")
  show "wf (measure (\<lambda>(ps, s). length s))" by simp
next
  fix ps :: "string list" and s p :: string
  assume "find (\<lambda>p. p \<noteq> [] \<and> prefix p s) ps = Some p"
  then have "p \<noteq> [] \<and> prefix p s"
    by (auto simp: find_Some_iff)
  then have "0 < length p \<and> length p \<le> length s"
    by (auto simp: prefix_def)
  then have "length s - length p < length s"
    by arith
  then show "((ps, drop (length p) s), (ps, s)) \<in> measure (\<lambda>(ps, s). length s)"
    by simp
qed

declare trimPrefixes.simps [simp del]

definition TrimLeft :: "string \<Rightarrow> string" where
  "TrimLeft s = trimPrefixes spaceRunes s"

text \<open>
  Trimming on the right decodes the string backwards; a white-space rune ends the string
  exactly when its encoding is a suffix of the string.
\<close>

definition TrimRight :: "string \<Rightarrow> string" where
  "TrimRight s = rev (trimPrefixes (map rev spaceRunes) (rev s))"

text \<open>\<^verbatim>\<open>strings.TrimSpace\<close>: leading white space is removed first, then trailing white space.\<close>

definition TrimSpace :: "string \<Rightarrow> string" where
  "TrimSpace s = TrimRight (TrimLeft s)"

definition HasPrefix :: "string \<Rightarrow> string \<Rightarrow> bool" where
  "HasPrefix s p = prefix p s"

text \<open>\<^verbatim>\<open>strings.Split(s, sep)\<close> for a separator of one byte; the empty string gives one empty piece.\<close>

function Split :: "string \<Rightarrow> char \<Rightarrow> string list" where
  "Split s sep =
     (case dropWhile (\<lambda>c. c \<noteq> sep) s of
        [] \<Rightarrow> [s]
      | _ # rest \<Rightarrow> takeWhile (\<lambda>c. c \<noteq> sep) s # Split rest sep)"
  by pat_completeness auto
termination
proof (relation "measure (\<lambda>(s, sep). length s)")
  show "wf (measure (\<lambda>(s, sep). length s))" by simp
next
  fix s rest :: string and sep x :: char
  assume "dropWhile (\<lambda>c. c \<noteq> sep) s = x # rest"
  then have "length (dropWhile (\<lambda>c. c \<noteq> sep) s) = Suc (length rest)"
    by simp
  moreover have "length (dropWhile (\<lambda>c. c \<noteq> sep) s) \<le> length s"
    by (rule length_dropWhile_le)
  ultimately show "((rest, sep), (s, sep)) \<in> measure (\<lambda>(s, sep). length s)"
    by simp
qed

declare Split.simps [simp del]

text \<open>
  \<^verbatim>\<open>strings.SplitN(s, sep, 2)\<close> for a separator of one byte: the string itself when the
  separator does not occur, else the text before and the text after the first occurrence.
\<close>

definition SplitN2 :: "string \<Rightarrow> char \<Rightarrow> string list" where
  "SplitN2 s sep =
     (case dropWhile (\<lambda>c. c \<noteq> sep) s of
        [] \<Rightarrow> [s]
      | _ # rest \<Rightarrow> [takeWhile (\<lambda>c. c \<noteq> sep) s, rest])"

section \<open>The parser\<close>

text \<open>
  A Go \<^verbatim>\<open>map[string]string\<close> is a partial function. The body of the loop of
  \<^verbatim>\<open>parseEnvFile\<close> is \<open>parseLine\<close>.
\<close>

type_synonym envmap = "string \<rightharpoonup> string"

definition parseLine :: "string \<Rightarrow> envmap \<Rightarrow> envmap" where
  "parseLine l env =
     (let line = TrimSpace l in
      if line = [] \<or> HasPrefix line ''#'' then env
      else (case SplitN2 line CHR ''='' of
              [k, v] \<Rightarrow> env(TrimSpace k \<mapsto> TrimSpace v)
            | _ \<Rightarrow> env))"

definition parseEnvFile :: "string \<Rightarrow> envmap" where
  "parseEnvFile content = fold parseLine (Split content CHR 0x0A) Map.empty"

section \<open>Data of the package\<close>

datatype error =
    AbsError string
  | ReadError string
  | ParseError string
  | NewWatcherError
  | AddError string
  | RuntimeError string

text \<open>
  The lines the package prints with \<^verbatim>\<open>logger.Printf\<close>, one constructor for each format
  string, with the arguments in the order of the call.
\<close>

datatype logmsg =
    LoadingFrom string
  | StartingWatcher string
  | FailedReadEnv error
  | ReloadFailed error
  | ReloadOk
  | FailedReadUpdated error
  | NewVar string string
  | ChangedVar string string string
  | RemovedVar string
  | WatcherError error

text \<open>A channel that was made is open or closed; the nil channel is \<open>None\<close>.\<close>

datatype chan = Open | Closed

datatype panic = CloseOfClosedChannel

text \<open>
  A \<^verbatim>\<open>time.Time\<close> and a \<^verbatim>\<open>time.Duration\<close> count nanoseconds; the zero time is 0.
  A timer made by \<^verbatim>\<open>time.AfterFunc\<close> waits for its deadline, was stopped, or has fired.
\<close>

type_synonym time = int
type_synonym duration = int

datatype timer = Pending time | Stopped | Fired

datatype op = Create | Write | Remove | Rename | Chmod

datatype phase = NotStarted | Spawned | Running | Terminated

record fswatcher =
  watched :: "string list"
  closed :: bool

record Config =
  FilePath :: string
  HotReload :: bool
  Logger :: "string option"
  ReloadDelay :: duration

text \<open>
  The state is the package's variables (\<open>once\<close>, \<open>watcher\<close>, \<open>closeCh\<close>, \<open>filePath\<close>,
  \<open>logger\<close>), the local variables of the goroutine \<^verbatim>\<open>watchEvents\<close> (\<open>delay\<close>, \<open>timer\<close>,
  \<open>lastEvent\<close>, \<open>oldEnv\<close>, which the timer's function keeps alive) with the \<open>phase\<close> the
  goroutine is in, and the process's surroundings: its environment variables, what reading a
  path gives (\<open>None\<close> when the read fails), the lines printed so far, each with the prefix of
  the logger that printed it, and the answers of \<^verbatim>\<open>filepath.Abs\<close>, \<^verbatim>\<open>fsnotify.NewWatcher\<close>,
  \<^verbatim>\<open>Watcher.Add\<close> and the parser of the godotenv library. A logger is known by its prefix.
  The lock \<open>mu\<close> is held for the whole of a load; every function below runs as one step.
\<close>

record state =
  once :: bool
  watcher :: "fswatcher option"
  closeCh :: "chan option"
  filePath :: string
  logger :: "string option"
  phase :: phase
  delay :: duration
  timer :: "timer option"
  lastEvent :: time
  oldEnv :: envmap
  environ :: envmap
  files :: "string \<rightharpoonup> string"
  printed :: "(string \<times> logmsg) list"
  filepath_Abs :: "string \<Rightarrow> error + string"
  fsnotify_NewWatcher :: "error option"
  watcher_Add :: "string \<Rightarrow> error option"
  godotenv_Parse :: "string \<Rightarrow> error + envmap"

section \<open>Loading\<close>

text \<open>
  \<^verbatim>\<open>logger.Printf\<close>. A call on the nil logger would panic; \<open>InitEnv\<close> sets the logger
  before the first call and nothing resets it, so no call meets the nil logger, and the
  model leaves the state as it is there.
\<close>

definition Printf :: "logmsg \<Rightarrow> state \<Rightarrow> state" where
  "Printf m s =
     (case logger s of
        None \<Rightarrow> s
      | Some pfx \<Rightarrow> s\<lparr>printed := printed s @ [(pfx, m)]\<rparr>)"

text \<open>
  \<^verbatim>\<open>os.Setenv\<close> refuses an empty key, a key with \<^verbatim>\<open>=\<close> or a NUL byte, and a value with a
  NUL byte.
\<close>

definition setenvOk :: "string \<Rightarrow> string \<Rightarrow> bool" where
  "setenvOk key val =
     (key \<noteq> [] \<and> CHR ''='' \<notin> set key \<and> CHR 0x00 \<notin> set key \<and> CHR 0x00 \<notin> set val)"

text \<open>
  \<^verbatim>\<open>godotenv.Load(filename)\<close> belongs to the library github.com/joho/godotenv, which the
  package imports; this is the library's \<^verbatim>\<open>loadFile(filename, false)\<close>: it reads and
  parses the file, returns the error of either, and then sets every parsed key that the
  environment does not hold yet (\<^verbatim>\<open>if !currentEnv[key] || overload\<close>, with \<open>overload\<close>
  false), ignoring what \<^verbatim>\<open>os.Setenv\<close> returns. A variable that is set already keeps its
  value; the overriding variant of the library is \<^verbatim>\<open>Overload\<close>, which the package does not
  call.
\<close>

definition godotenv_Load :: "string \<Rightarrow> state \<Rightarrow> error option \<times> state" where
  "godotenv_Load filename s =
     (case files s filename of
        None \<Rightarrow> (Some (ReadError filename), s)
      | Some content \<Rightarrow>
          (case godotenv_Parse s content of
             Inl err \<Rightarrow> (Some err, s)
           | Inr envMap \<Rightarrow>
               (None,
                s\<lparr>environ := (\<lambda>key.
                     case environ s key of
                       Some cur \<Rightarrow> Some cur
                     | None \<Rightarrow>
                         (case envMap key of
                            None \<Rightarrow> None
                          | Some val \<Rightarrow> if setenvOk key val then Some val else None))\<rparr>)))"

definition load :: "state \<Rightarrow> error option \<times> state" where
  "load s =
     (case filepath_Abs s (filePath s) of
        Inl err \<Rightarrow> (Some err, s)
      | Inr absPath \<Rightarrow> godotenv_Load absPath (Printf (LoadingFrom absPath) s))"

definition initWatcher :: "string \<Rightarrow> state \<Rightarrow> error option \<times> state" where
  "initWatcher path s =
     (case fsnotify_NewWatcher s of
        Some err \<Rightarrow> (Some err, s\<lparr>watcher := None\<rparr>)
      | None \<Rightarrow>
          (let s1 = s\<lparr>watcher := Some \<lparr>watched = [], closed = False\<rparr>\<rparr> in
           case filepath_Abs s1 path of
             Inl err \<Rightarrow> (Some err, s1)
           | Inr absPath \<Rightarrow>
               (case watcher_Add s1 absPath of
                  Some err \<Rightarrow> (Some err, s1)
                | None \<Rightarrow>
                    (None,
                     Printf (StartingWatcher absPath)
                       (s1\<lparr>watcher := Some \<lparr>watched = [absPath], closed = False\<rparr>,
                           closeCh := Some Open\<rparr>)))))"

definition Second :: duration where
  "Second = 1000000000"

text \<open>The defaults \<open>InitEnv\<close> fills in: the path, the delay and the logger.\<close>

definition withDefaults :: "Config \<Rightarrow> Config" where
  "withDefaults cfg0 =
     (let cfg1 = (if FilePath cfg0 = [] then cfg0\<lparr>FilePath := ''.env''\<rparr> else cfg0);
          cfg2 = (if ReloadDelay cfg1 = 0 then cfg1\<lparr>ReloadDelay := 2 * Second\<rparr> else cfg1)
      in if Logger cfg2 = None then cfg2\<lparr>Logger := Some ''[ENV] ''\<rparr> else cfg2)"

text \<open>
  The function \<open>InitEnv\<close> hands to \<^verbatim>\<open>once.Do\<close>; its first component is the value it leaves in
  the local variable \<open>initErr\<close>. \<^verbatim>\<open>go watchEvents(cfg.ReloadDelay)\<close> puts the goroutine in
  phase \<open>Spawned\<close>.
\<close>

definition initBody :: "Config \<Rightarrow> state \<Rightarrow> error option \<times> state" where
  "initBody cfg0 s =
     (let cfg = withDefaults cfg0;
          s1 = s\<lparr>logger := Logger cfg, filePath := FilePath cfg\<rparr>
      in case load s1 of
           (Some err, s2) \<Rightarrow> (Some err, s2)
         | (None, s2) \<Rightarrow>
             if HotReload cfg then
               (case initWatcher (FilePath cfg) s2 of
                  (Some err, s3) \<Rightarrow> (Some err, s3)
                | (None, s3) \<Rightarrow> (None, s3\<lparr>phase := Spawned, delay := ReloadDelay cfg\<rparr>))
             else (None, s2))"

text \<open>
  \<open>initErr\<close> is a local variable of \<open>InitEnv\<close>, nil at every call; \<^verbatim>\<open>once.Do\<close> runs the
  function at the first call only.
\<close>

definition InitEnv :: "Config \<Rightarrow> state \<Rightarrow> error option \<times> state" where
  "InitEnv cfg s =
     (if once s then (None, s)
      else (case initBody cfg s of (initErr, s') \<Rightarrow> (initErr, s'\<lparr>once := True\<rparr>)))"

definition close_chan :: "chan \<Rightarrow> panic + chan" where
  "close_chan ch = (case ch of Open \<Rightarrow> Inr Closed | Closed \<Rightarrow> Inl CloseOfClosedChannel)"

definition Close :: "state \<Rightarrow> panic + state" where
  "Close s =
     (case closeCh s of
        None \<Rightarrow> Inr s
      | Some ch \<Rightarrow>
          (case close_chan ch of
             Inl p \<Rightarrow> Inl p
           | Inr ch' \<Rightarrow> Inr (s\<lparr>closeCh := Some ch'\<rparr>)))"

section \<open>The watch loop\<close>

text \<open>
  \<^verbatim>\<open>Time.Sub\<close> gives the difference as a \<^verbatim>\<open>Duration\<close>, a 64-bit count, and saturates at
  the largest and the smallest duration.
\<close>

definition maxDuration :: duration where
  "maxDuration = 2 ^ 63 - 1"

definition minDuration :: duration where
  "minDuration = - (2 ^ 63)"

definition time_Sub :: "time \<Rightarrow> time \<Rightarrow> duration" where
  "time_Sub t u = max minDuration (min maxDuration (t - u))"

definition timer_Stop :: "timer \<Rightarrow> timer" where
  "timer_Stop t = (case t of Pending due \<Rightarrow> Stopped | Stopped \<Rightarrow> Stopped | Fired \<Rightarrow> Fired)"

text \<open>
  The two loops that compare the new mapping with the old one. A \<^verbatim>\<open>range\<close> over a Go map
  visits every key once, in an order the language leaves open: the order is the list \<open>ks\<close>.
\<close>

definition rangeOrder :: "envmap \<Rightarrow> string list \<Rightarrow> bool" where
  "rangeOrder m ks = (distinct ks \<and> set ks = dom m)"

definition diffNew :: "envmap \<Rightarrow> envmap \<Rightarrow> string list \<Rightarrow> logmsg list" where
  "diffNew oldEnv' newEnv ks =
     concat (map (\<lambda>key.
       case newEnv key of
         None \<Rightarrow> []
       | Some newValue \<Rightarrow>
           (case oldEnv' key of
              None \<Rightarrow> [NewVar key newValue]
            | Some oldValue \<Rightarrow>
                if oldValue \<noteq> newValue then [ChangedVar key newValue oldValue] else [])) ks)"

definition diffOld :: "envmap \<Rightarrow> envmap \<Rightarrow> string list \<Rightarrow> logmsg list" where
  "diffOld oldEnv' newEnv ks =
     concat (map (\<lambda>key.
       case newEnv key of
         None \<Rightarrow> [RemovedVar key]
       | Some newValue \<Rightarrow> []) ks)"

definition diffEnv :: "envmap \<Rightarrow> envmap \<Rightarrow> string list \<Rightarrow> string list \<Rightarrow> logmsg list" where
  "diffEnv oldEnv' newEnv ksNew ksOld = diffNew oldEnv' newEnv ksNew @ diffOld oldEnv' newEnv ksOld"

text \<open>
  The function given to \<^verbatim>\<open>time.AfterFunc\<close>; \<open>ksNew\<close> and \<open>ksOld\<close> are the orders of its two
  \<^verbatim>\<open>range\<close> loops.
\<close>

definition reloadFunc :: "string list \<Rightarrow> string list \<Rightarrow> state \<Rightarrow> state" where
  "reloadFunc ksNew ksOld s =
     (case load s of
        (Some err, s1) \<Rightarrow> Printf (ReloadFailed err) s1
      | (None, s1) \<Rightarrow>
          (let s2 = Printf ReloadOk s1 in
           case files s2 ''.env'' of
             None \<Rightarrow> Printf (FailedReadUpdated (ReadError ''.env'')) s2
           | Some newEnvContent \<Rightarrow>
               (let newEnv = parseEnvFile newEnvContent in
                (fold Printf (diffEnv (oldEnv s2) newEnv ksNew ksOld) s2)\<lparr>oldEnv := newEnv\<rparr>)))"

text \<open>The function given to \<^verbatim>\<open>time.AfterFunc\<close> in \<^verbatim>\<open>loadenv/main.go\<close>.\<close>

definition reloadPlain :: "state \<Rightarrow> state" where
  "reloadPlain s =
     (case load s of
        (Some err, s1) \<Rightarrow> Printf (ReloadFailed err) s1
      | (None, s1) \<Rightarrow> Printf ReloadOk s1)"

text \<open>\<^verbatim>\<open>defer watcher.Close()\<close>: every return of \<open>watchEvents\<close> closes the watcher.\<close>

definition exitLoop :: "state \<Rightarrow> state" where
  "exitLoop s =
     s\<lparr>phase := Terminated,
       watcher := (case watcher s of None \<Rightarrow> None | Some w \<Rightarrow> Some (w\<lparr>closed := True\<rparr>))\<rparr>"

text \<open>The statements of \<open>watchEvents\<close> before its loop.\<close>

definition watchEvents_start :: "state \<Rightarrow> state" where
  "watchEvents_start s =
     (case files s ''.env'' of
        None \<Rightarrow> exitLoop (Printf (FailedReadEnv (ReadError ''.env'')) s)
      | Some oldEnvContent \<Rightarrow>
          s\<lparr>phase := Running, timer := None, lastEvent := 0,
            oldEnv := parseEnvFile oldEnvContent\<rparr>)"

text \<open>
  What the goroutine and the timer can meet: the goroutine is scheduled for the first time,
  an event is received and \<^verbatim>\<open>time.Now()\<close> gives the time, the event channel is found closed,
  an error is received, the error channel is found closed, the receive from \<open>closeCh\<close>
  succeeds, or the clock reaches a time at which the runtime runs the timer's function.
\<close>

datatype input =
    Start
  | EventRecv "op set" time
  | EventsClosed
  | ErrorRecv error
  | ErrorsClosed
  | CloseRecv
  | TimerFire time "string list" "string list"

text \<open>One round of the \<^verbatim>\<open>select\<close> in the loop of \<open>watchEvents\<close>.\<close>

definition selectCase :: "input \<Rightarrow> state \<Rightarrow> state" where
  "selectCase i s =
     (case i of
        EventRecv ops now \<Rightarrow>
          if time_Sub now (lastEvent s) < delay s then s
          else if Write \<in> ops \<or> Create \<in> ops then
            (let s1 = (case timer s of
                         None \<Rightarrow> s
                       | Some t \<Rightarrow> s\<lparr>timer := Some (timer_Stop t)\<rparr>)
             in s1\<lparr>timer := Some (Pending (now + delay s)), lastEvent := now\<rparr>)
          else s
      | EventsClosed \<Rightarrow> exitLoop s
      | ErrorRecv err \<Rightarrow> Printf (WatcherError err) s
      | ErrorsClosed \<Rightarrow> exitLoop s
      | CloseRecv \<Rightarrow> (if closeCh s = Some Closed then exitLoop s else s)
      | Start \<Rightarrow> s
      | TimerFire now ksNew ksOld \<Rightarrow> s)"

text \<open>
  The runtime runs the function of a pending timer once its deadline is reached, whether or
  not the goroutine that made the timer still runs.
\<close>

definition timerFire :: "time \<Rightarrow> string list \<Rightarrow> string list \<Rightarrow> state \<Rightarrow> state" where
  "timerFire now ksNew ksOld s =
     (case timer s of
        Some (Pending due) \<Rightarrow>
          if due \<le> now then reloadFunc ksNew ksOld (s\<lparr>timer := Some Fired\<rparr>) else s
      | _ \<Rightarrow> s)"

text \<open>A step of the background work: the goroutine runs only between its start and its return.\<close>

definition watchStep :: "input \<Rightarrow> state \<Rightarrow> state" where
  "watchStep i s =
     (case i of
        Start \<Rightarrow> (if phase s = Spawned then watchEvents_start s else s)
      | TimerFire now ksNew ksOld \<Rightarrow> timerFire now ksNew ksOld s
      | _ \<Rightarrow> (if phase s = Running then selectCase i s else s))"

section \<open>A process to run the package in\<close>

text \<open>
  A process started in the directory \<^verbatim>\<open>/app\<close>, where \<^verbatim>\<open>.env\<close> holds the given text and no
  other file exists; no variable is set, nothing has been initialised. The library's parser
  is taken to read plain \<^verbatim>\<open>KEY=VALUE\<close> lines as \<open>parseEnvFile\<close> does.
\<close>

definition process :: "string \<Rightarrow> state" where
  "process content =
     \<lparr>once = False, watcher = None, closeCh = None, filePath = [], logger = None,
      phase = NotStarted, delay = 0, timer = None, lastEvent = 0, oldEnv = Map.empty,
      environ = Map.empty,
      files = [''.env'' \<mapsto> content, ''/app/.env'' \<mapsto> content],
      printed = [],
      filepath_Abs = (\<lambda>p. Inr (''/app/'' @ p)),
      fsnotify_NewWatcher = None,
      watcher_Add = (\<lambda>p. None),
      godotenv_Parse = (\<lambda>c. Inr (parseEnvFile c))\<rparr>"

definition writeEnvFile :: "string \<Rightarrow> state \<Rightarrow> state" where
  "writeEnvFile content s = s\<lparr>files := (files s)(''.env'' \<mapsto> content, ''/app/.env'' \<mapsto> content)\<rparr>"

definition demoConfig :: Config where
  "demoConfig = \<lparr>FilePath = ''.env'', HotReload = True, Logger = Some ''[APP] '', ReloadDelay = Second\<rparr>"

text \<open>A configuration that names a file which does not exist, with every other field left zero.\<close>

definition missingConfig :: Config where
  "missingConfig = \<lparr>FilePath = ''missing.env'', HotReload = False, Logger = None, ReloadDelay = 0\<rparr>"

text \<open>
  The time of a first event, in nanoseconds from the zero time; the process with its watch
  loop running; and the loop after it has accepted a write at that time.
\<close>

definition startTime :: time where
  "startTime = 63900000000000000000"

definition started :: "string \<Rightarrow> state" where
  "started content = watchStep Start (snd (InitEnv demoConfig (process content)))"

definition accepted :: state where
  "accepted = watchStep (EventRecv {Write} startTime) (started ''A=1'')"

text \<open>A configuration for another file than \<^verbatim>\<open>.env\<close>, and a process that has both files.\<close>

definition otherConfig :: Config where
  "otherConfig = \<lparr>FilePath = ''conf/app.env'', HotReload = True, Logger = None, ReloadDelay = 0\<rparr>"

definition otherProcess :: state where
  "otherProcess =
     (process ''A=1'')\<lparr>files := (files (process ''A=1''))(''/app/conf/app.env'' \<mapsto> ''B=2'')\<rparr>"

text \<open>That process with its watch loop started, after both files have been rewritten.\<close>

definition rewritten :: state where
  "rewritten =
     (watchEvents_start (snd (InitEnv otherConfig otherProcess)))
       \<lparr>files := [''.env'' \<mapsto> ''A=5'', ''/app/conf/app.env'' \<mapsto> ''B=7'']\<rparr>"

text \<open>The key a line of the comparison is about, and the entry a line of the file stands for.\<close>

fun msgKey :: "logmsg \<Rightarrow> string" where
  "msgKey (NewVar k v) = k"
| "msgKey (ChangedVar k nv ov) = k"
| "msgKey (RemovedVar k) = k"
| "msgKey m = []"

definition entryOf :: "string \<Rightarrow> string \<Rightarrow> string \<Rightarrow> bool" where
  "entryOf l k v =
     (TrimSpace l \<noteq> [] \<and> \<not> HasPrefix (TrimSpace l) ''#'' \<and> CHR ''='' \<in> set l \<and>
      k = TrimSpace (takeWhile (\<lambda>c. c \<noteq> CHR ''='') (TrimSpace l)) \<and>
      v = TrimSpace (tl (dropWhile (\<lambda>c. c \<noteq> CHR ''='') (TrimSpace l))))"

section \<open>Initialisation and shutdown\<close>

lemma InitEnv_again: "once s \<Longrightarrow> InitEnv cfg s = (None, s)"
  by (simp add: InitEnv_def)

lemma InitEnv_once: "once (snd (InitEnv cfg s))"
  by (simp add: InitEnv_def split: prod.splits)

lemma Close_Open: "closeCh s = Some Open \<Longrightarrow> Close s = Inr (s\<lparr>closeCh := Some Closed\<rparr>)"
  by (simp add: Close_def close_chan_def)

lemma Close_Closed: "closeCh s = Some Closed \<Longrightarrow> Close s = Inl CloseOfClosedChannel"
  by (simp add: Close_def close_chan_def)

lemma load_closeCh: "closeCh (snd (load s)) = closeCh s"
  by (simp add: load_def godotenv_Load_def Printf_def split: sum.splits option.splits)

lemma initWatcher_closeCh:
  "closeCh s = None \<Longrightarrow> closeCh (snd (initWatcher p s)) \<noteq> None \<Longrightarrow> fst (initWatcher p s) = None"
  by (auto simp add: initWatcher_def Let_def Printf_def split: sum.splits option.splits)

lemma withDefaults_HotReload: "HotReload (withDefaults cfg) = HotReload cfg"
  by (simp add: withDefaults_def Let_def)

lemma initBody_closeCh:
  assumes "closeCh s = None" and "closeCh (snd (initBody cfg s)) \<noteq> None"
  shows "HotReload cfg \<and> fst (initBody cfg s) = None"
proof -
  define c where "c = withDefaults cfg"
  define s1 where "s1 = s\<lparr>logger := Logger c, filePath := FilePath c\<rparr>"
  obtain e s2 where L: "load s1 = (e, s2)"
    by (cases "load s1")
  have c2: "closeCh s2 = None"
    using load_closeCh [of s1] L assms(1) by (simp add: s1_def)
  obtain e3 s3 where W: "initWatcher (FilePath c) s2 = (e3, s3)"
    by (cases "initWatcher (FilePath c) s2")
  have B: "initBody cfg s =
      (case e of Some err \<Rightarrow> (Some err, s2)
       | None \<Rightarrow> if HotReload c then
            (case e3 of Some err \<Rightarrow> (Some err, s3)
             | None \<Rightarrow> (None, s3\<lparr>phase := Spawned, delay := ReloadDelay c\<rparr>))
          else (None, s2))"
    by (simp add: initBody_def Let_def c_def [symmetric] s1_def [symmetric] L W
        split: option.splits)
  show ?thesis
  proof (cases e)
    case (Some err)
    with B c2 assms(2) show ?thesis by simp
  next
    case None
    show ?thesis
    proof (cases "HotReload c")
      case False
      with B None c2 assms(2) show ?thesis by simp
    next
      case True
      have "closeCh s3 \<noteq> None"
        using B None True assms(2) by (cases e3) simp_all
      then have "e3 = None"
        using initWatcher_closeCh [OF c2, of "FilePath c"] W by simp
      with B None True show ?thesis
        by (simp add: c_def withDefaults_HotReload)
    qed
  qed
qed

lemma load_logger: "logger (snd (load s)) = logger s"
  by (simp add: load_def godotenv_Load_def Printf_def split: sum.splits option.splits)

lemma initWatcher_logger: "logger (snd (initWatcher p s)) = logger s"
  by (simp add: initWatcher_def Let_def Printf_def split: sum.splits option.splits)

lemma withDefaults_Logger: "Logger (withDefaults cfg) \<noteq> None"
  by (simp add: withDefaults_def Let_def)

lemma InitEnv_logger:
  assumes "\<not> once s"
  shows "logger (snd (InitEnv cfg s)) = Logger (withDefaults cfg)"
proof -
  define c where "c = withDefaults cfg"
  define s1 where "s1 = s\<lparr>logger := Logger c, filePath := FilePath c\<rparr>"
  obtain e s2 where L: "load s1 = (e, s2)"
    by (cases "load s1")
  obtain e3 s3 where W: "initWatcher (FilePath c) s2 = (e3, s3)"
    by (cases "initWatcher (FilePath c) s2")
  have l2: "logger s2 = Logger c"
    using load_logger [of s1] L by (simp add: s1_def)
  have l3: "logger s3 = Logger c"
    using initWatcher_logger [of "FilePath c" s2] W l2 by simp
  have "logger (snd (initBody cfg s)) = Logger c"
    using l2 l3
    by (simp add: initBody_def Let_def c_def [symmetric] s1_def [symmetric] L W
        split: option.splits)
  with assms show ?thesis
    by (simp add: InitEnv_def case_prod_beta c_def)
qed

text \<open>
  C1. The claim: after a first call of \<open>InitEnv\<close>, every later call does nothing and returns
  what the first call returned, its error included. The code keeps the result in a local
  variable: with a file that does not exist the first call returns the read error; and
  after any first call, every later call returns no error and leaves the state as it is.
\<close>

theorem InitEnv_second_call_returns_nil:
  "fst (InitEnv missingConfig (process ''A=1'')) = Some (ReadError ''/app/missing.env'') \<and>
   fst (InitEnv cfg' (snd (InitEnv cfg s))) = None \<and>
   snd (InitEnv cfg' (snd (InitEnv cfg s))) = snd (InitEnv cfg s)"
proof -
  have "fst (InitEnv missingConfig (process ''A=1'')) = Some (ReadError ''/app/missing.env'')"
    by code_simp
  moreover have "InitEnv cfg' (snd (InitEnv cfg s)) = (None, snd (InitEnv cfg s))"
    using InitEnv_once by (rule InitEnv_again)
  ultimately show ?thesis
    by simp
qed

text \<open>
  C2. The claim: two calls of \<open>Close\<close> in a row raise no panic, and the second one changes
  nothing. After an initialisation with hot reload the first call closes the channel and the
  second call closes the closed channel, which panics.
\<close>

theorem Close_twice_panics:
  "fst (InitEnv demoConfig (process ''A=1'')) = None \<and>
   \<not> isl (Close (snd (InitEnv demoConfig (process ''A=1'')))) \<and>
   Close (projr (Close (snd (InitEnv demoConfig (process ''A=1''))))) = Inl CloseOfClosedChannel"
proof -
  have "closeCh (snd (InitEnv demoConfig (process ''A=1''))) = Some Open"
    by code_simp
  then have "Close (snd (InitEnv demoConfig (process ''A=1''))) =
      Inr ((snd (InitEnv demoConfig (process ''A=1'')))\<lparr>closeCh := Some Closed\<rparr>)"
    by (rule Close_Open)
  moreover have "fst (InitEnv demoConfig (process ''A=1'')) = None"
    by code_simp
  ultimately show ?thesis
    by (simp add: Close_Closed)
qed

text \<open>
  C10. While \<open>closeCh\<close> is nil, \<open>Close\<close> returns without a panic and leaves the state as it
  is; and \<open>closeCh\<close> is made only by a call of \<open>InitEnv\<close> that has hot reload enabled and
  returns no error.
\<close>

theorem Close_before_init:
  assumes n: "closeCh s = None"
  shows "Close s = Inr s \<and>
     (closeCh (snd (InitEnv cfg s)) \<noteq> None \<longrightarrow> HotReload cfg \<and> fst (InitEnv cfg s) = None)"
proof -
  have 1: "Close s = Inr s"
    using n by (simp add: Close_def)
  have 2: "HotReload cfg \<and> fst (InitEnv cfg s) = None"
    if a: "closeCh (snd (InitEnv cfg s)) \<noteq> None"
  proof -
    have o: "\<not> once s"
      using a n by (auto simp: InitEnv_def)
    then have "closeCh (snd (initBody cfg s)) \<noteq> None"
      using a by (simp add: InitEnv_def case_prod_beta)
    from initBody_closeCh [OF n this] o show ?thesis
      by (simp add: InitEnv_def case_prod_beta)
  qed
  from 1 2 show ?thesis by blast
qed

theorem Close_before_init_witness:
  "closeCh (process ''A=1'') = None \<and> Close (process ''A=1'') = Inr (process ''A=1'') \<and>
   closeCh (snd (InitEnv demoConfig (process ''A=1''))) \<noteq> None \<and>
   HotReload demoConfig \<and> fst (InitEnv demoConfig (process ''A=1'')) = None"
proof -
  have n: "closeCh (process ''A=1'') = None"
    by (simp add: process_def)
  have a: "closeCh (snd (InitEnv demoConfig (process ''A=1''))) \<noteq> None"
    by code_simp
  from Close_before_init [OF n, of demoConfig] n a show ?thesis
    by simp
qed

section \<open>Loading and reloading\<close>

lemma Printf_frame [simp]:
  "oldEnv (Printf m s) = oldEnv s" "files (Printf m s) = files s" "logger (Printf m s) = logger s"
  "environ (Printf m s) = environ s" "timer (Printf m s) = timer s" "phase (Printf m s) = phase s"
  "closeCh (Printf m s) = closeCh s"
  by (simp_all add: Printf_def split: option.splits)

lemma Printf_printed: "\<exists>ms. Printf m s = s\<lparr>printed := printed s @ ms\<rparr>"
proof (cases "logger s")
  case None
  then have "Printf m s = s\<lparr>printed := printed s @ []\<rparr>"
    by (simp add: Printf_def)
  then show ?thesis by blast
next
  case (Some pfx)
  then have "Printf m s = s\<lparr>printed := printed s @ [(pfx, m)]\<rparr>"
    by (simp add: Printf_def)
  then show ?thesis by blast
qed

lemma load_frame [simp]:
  "oldEnv (snd (load s)) = oldEnv s" "files (snd (load s)) = files s"
  "logger (snd (load s)) = logger s" "timer (snd (load s)) = timer s"
  "phase (snd (load s)) = phase s"
  by (simp_all add: load_def godotenv_Load_def split: sum.splits option.splits)

lemma godotenv_Load_fail:
  "fst (godotenv_Load f s) = Some err \<Longrightarrow> snd (godotenv_Load f s) = s"
  by (simp add: godotenv_Load_def split: sum.splits option.splits)

lemma load_fail:
  assumes "fst (load s) = Some err"
  shows "\<exists>ms. snd (load s) = s\<lparr>printed := printed s @ ms\<rparr>"
proof (cases "filepath_Abs s (filePath s)")
  case (Inl e)
  then have "snd (load s) = s\<lparr>printed := printed s @ []\<rparr>"
    by (simp add: load_def)
  then show ?thesis by blast
next
  case (Inr absPath)
  then have l: "load s = godotenv_Load absPath (Printf (LoadingFrom absPath) s)"
    by (simp add: load_def)
  with assms have "snd (load s) = Printf (LoadingFrom absPath) s"
    by (simp add: godotenv_Load_fail)
  with Printf_printed [of "LoadingFrom absPath" s] show ?thesis by simp
qed

lemma fold_Printf_frame [simp]:
  "oldEnv (fold Printf ms s) = oldEnv s" "files (fold Printf ms s) = files s"
  "environ (fold Printf ms s) = environ s" "timer (fold Printf ms s) = timer s"
  "phase (fold Printf ms s) = phase s"
  by (induction ms arbitrary: s) simp_all

lemma exitLoop_frame [simp]:
  "phase (exitLoop s) = Terminated" "timer (exitLoop s) = timer s"
  "printed (exitLoop s) = printed s" "oldEnv (exitLoop s) = oldEnv s"
  by (simp_all add: exitLoop_def)

lemma load_keeps_set_variable:
  "environ s key = Some cur \<Longrightarrow> environ (snd (load s)) key = Some cur"
  by (simp add: load_def godotenv_Load_def split: sum.splits option.splits)

lemma reloadFunc_environ: "environ (reloadFunc ksNew ksOld s) = environ (snd (load s))"
proof (cases "load s")
  case (Pair e s1)
  then show ?thesis
    by (cases e) (simp_all add: reloadFunc_def Let_def split: option.splits)
qed

lemma reloadPlain_environ: "environ (reloadPlain s) = environ (snd (load s))"
proof (cases "load s")
  case (Pair e s1)
  then show ?thesis
    by (cases e) (simp_all add: reloadPlain_def)
qed

lemma reloadPlain_failure:
  "fst (load s) = Some err \<Longrightarrow> reloadFunc ksNew ksOld s = reloadPlain s"
  by (cases "load s") (simp add: reloadFunc_def reloadPlain_def)

text \<open>
  C4. When the load of a reload returns an error, the timer's function changes nothing but the
  printed lines, the line that reports the error is what it prints last, and the mapping
  the next comparison starts from stays as it was; the mapping also stays when the load
  succeeds and the read of \<^verbatim>\<open>.env\<close> fails.
\<close>

theorem reload_failure_keeps_snapshot:
  "(fst (load s) = Some err \<longrightarrow>
      (\<exists>ms. reloadFunc ksNew ksOld s = s\<lparr>printed := printed s @ ms\<rparr>) \<and>
      reloadFunc ksNew ksOld s = Printf (ReloadFailed err) (snd (load s))) \<and>
   (fst (load s) = Some err \<or> files s ''.env'' = None \<longrightarrow>
      oldEnv (reloadFunc ksNew ksOld s) = oldEnv s)"
proof -
  have r: "reloadFunc ksNew ksOld s = Printf (ReloadFailed err) (snd (load s))"
    if f: "fst (load s) = Some err"
    using f by (cases "load s") (simp add: reloadFunc_def)
  have a: "\<exists>ms. reloadFunc ksNew ksOld s = s\<lparr>printed := printed s @ ms\<rparr>"
    if f: "fst (load s) = Some err"
  proof -
    obtain ms where 1: "snd (load s) = s\<lparr>printed := printed s @ ms\<rparr>"
      using load_fail [OF f] by blast
    obtain ms' where 2: "Printf (ReloadFailed err) (snd (load s)) =
        (snd (load s))\<lparr>printed := printed (snd (load s)) @ ms'\<rparr>"
      using Printf_printed by blast
    have "reloadFunc ksNew ksOld s = s\<lparr>printed := printed s @ (ms @ ms')\<rparr>"
      unfolding r [OF f] 2 by (subst (1 2) 1) simp
    then show ?thesis by blast
  qed
  have b: "oldEnv (reloadFunc ksNew ksOld s) = oldEnv s"
    if f: "fst (load s) = Some err"
    using r [OF f] by simp
  have c: "oldEnv (reloadFunc ksNew ksOld s) = oldEnv s"
    if f: "files s ''.env'' = None"
  proof (cases "load s")
    case (Pair e s1)
    then have "s1 = snd (load s)" by simp
    then have "files s1 ''.env'' = None" "oldEnv s1 = oldEnv s"
      using f by simp_all
    with Pair show ?thesis
      by (cases e) (simp_all add: reloadFunc_def Let_def)
  qed
  from r a b c show ?thesis by blast
qed

theorem reload_failure_keeps_snapshot_witness:
  "fst (load ((started ''A=1'')\<lparr>files := Map.empty\<rparr>)) = Some (ReadError ''/app/.env'') \<and>
   files ((started ''A=1'')\<lparr>files := Map.empty\<rparr>) ''.env'' = None \<and>
   reloadFunc [] [''A''] ((started ''A=1'')\<lparr>files := Map.empty\<rparr>) =
     Printf (ReloadFailed (ReadError ''/app/.env''))
       (snd (load ((started ''A=1'')\<lparr>files := Map.empty\<rparr>))) \<and>
   oldEnv (reloadFunc [] [''A''] ((started ''A=1'')\<lparr>files := Map.empty\<rparr>)) =
     oldEnv ((started ''A=1'')\<lparr>files := Map.empty\<rparr>) \<and>
   oldEnv ((started ''A=1'')\<lparr>files := Map.empty\<rparr>) ''A'' = Some ''1''"
proof -
  have l: "fst (load ((started ''A=1'')\<lparr>files := Map.empty\<rparr>)) = Some (ReadError ''/app/.env'')"
    by code_simp
  have f: "files ((started ''A=1'')\<lparr>files := Map.empty\<rparr>) ''.env'' = None"
    by simp
  have o: "oldEnv ((started ''A=1'')\<lparr>files := Map.empty\<rparr>) ''A'' = Some ''1''"
    by code_simp
  from reload_failure_keeps_snapshot
    [of "(started ''A=1'')\<lparr>files := Map.empty\<rparr>" "ReadError ''/app/.env''" "[]" "[''A'']"]
    l f o
  show ?thesis by blast
qed

section \<open>The scheduler\<close>

text \<open>
  C7. The two stages apply to the events of the loop, and an event is accepted when it is a
  write or a create. With \<open>lastEvent\<close> the time of the last accepted event: an event that
  comes less than the delay after it leaves the whole state as it is, the timer included; a
  write or create that comes at least the delay after it puts a new timer of the full delay
  in place of the old one and becomes the last accepted event. The delay is a 64-bit
  duration and the clock does not run backwards.
\<close>

theorem gap_filter:
  assumes "phase s = Running" and "delay s \<le> maxDuration" and "lastEvent s \<le> now"
  shows "(now - lastEvent s < delay s \<longrightarrow> watchStep (EventRecv ops now) s = s) \<and>
     (delay s \<le> now - lastEvent s \<and> (Write \<in> ops \<or> Create \<in> ops) \<longrightarrow>
        watchStep (EventRecv ops now) s =
          s\<lparr>timer := Some (Pending (now + delay s)), lastEvent := now\<rparr>)"
proof -
  have "minDuration \<le> 0" "0 \<le> maxDuration"
    by (simp_all add: minDuration_def maxDuration_def)
  with assms(2,3) have "(time_Sub now (lastEvent s) < delay s) = (now - lastEvent s < delay s)"
    by (simp add: time_Sub_def max_def min_def)
  with assms(1) show ?thesis
    by (simp add: watchStep_def selectCase_def Let_def split: option.splits)
qed

theorem gap_filter_witness:
  "phase accepted = Running \<and> delay accepted = Second \<and> lastEvent accepted = startTime \<and>
   watchStep (EventRecv {Write} (startTime + 500000000)) accepted = accepted \<and>
   watchStep (EventRecv {Write} (startTime + 1500000000)) accepted =
     accepted\<lparr>timer := Some (Pending (startTime + 2500000000)),
              lastEvent := startTime + 1500000000\<rparr>"
proof -
  have p: "phase accepted = Running"
    by code_simp
  have d: "delay accepted = Second"
    by code_simp
  have t: "lastEvent accepted = startTime"
    by code_simp
  have m: "delay accepted \<le> maxDuration"
    by code_simp
  have 1: "lastEvent accepted \<le> startTime + 500000000"
    by (simp add: t)
  have 2: "lastEvent accepted \<le> startTime + 1500000000"
    by (simp add: t)
  from gap_filter [OF p m 1, of "{Write}"] gap_filter [OF p m 2, of "{Write}"] p d t
  show ?thesis
    by (simp add: Second_def)
qed

lemma other_event_ignored:
  "phase s = Running \<Longrightarrow> Write \<notin> ops \<Longrightarrow> Create \<notin> ops \<Longrightarrow>
   watchStep (EventRecv ops now) s = s"
  by (simp add: watchStep_def selectCase_def)

text \<open>
  C9. The mapping the comparison starts from is read from the path \<^verbatim>\<open>.env\<close>, whatever
  \<open>filePath\<close> is; when that read fails the goroutine prints one line, closes the watcher and
  returns, and no later event is handled; and after a load that succeeds the new mapping is
  read from \<^verbatim>\<open>.env\<close> again, so the lines of the comparison describe that file. The
  configured path has no part in how the loop starts.
\<close>

theorem watch_reads_dotenv:
  "(files s ''.env'' = Some c \<longrightarrow>
      watchEvents_start s =
        s\<lparr>phase := Running, timer := None, lastEvent := 0, oldEnv := parseEnvFile c\<rparr>) \<and>
   (files s ''.env'' = None \<longrightarrow>
      watchEvents_start s = exitLoop (Printf (FailedReadEnv (ReadError ''.env'')) s) \<and>
      watchStep (EventRecv ops now) (watchEvents_start s) = watchEvents_start s) \<and>
   (load s = (None, s1) \<and> files s ''.env'' = Some c \<longrightarrow>
      reloadFunc ksNew ksOld s =
        (fold Printf (diffEnv (oldEnv s) (parseEnvFile c) ksNew ksOld) (Printf ReloadOk s1))
          \<lparr>oldEnv := parseEnvFile c\<rparr>) \<and>
   watchEvents_start (s\<lparr>filePath := p\<rparr>) = (watchEvents_start s)\<lparr>filePath := p\<rparr>"
proof -
  have 1: "watchEvents_start s =
      s\<lparr>phase := Running, timer := None, lastEvent := 0, oldEnv := parseEnvFile c\<rparr>"
    if "files s ''.env'' = Some c"
    using that by (simp add: watchEvents_start_def)
  have 2: "watchEvents_start s = exitLoop (Printf (FailedReadEnv (ReadError ''.env'')) s)"
    if "files s ''.env'' = None"
    using that by (simp add: watchEvents_start_def)
  have 3: "watchStep (EventRecv ops now) (watchEvents_start s) = watchEvents_start s"
    if "files s ''.env'' = None"
    unfolding 2 [OF that] by (simp add: watchStep_def)
  have 4: "reloadFunc ksNew ksOld s =
        (fold Printf (diffEnv (oldEnv s) (parseEnvFile c) ksNew ksOld) (Printf ReloadOk s1))
          \<lparr>oldEnv := parseEnvFile c\<rparr>"
    if l: "load s = (None, s1)" and f: "files s ''.env'' = Some c"
  proof -
    have "s1 = snd (load s)" using l by simp
    then have "files s1 ''.env'' = Some c" "oldEnv s1 = oldEnv s"
      using f by simp_all
    then show ?thesis
      using l by (simp add: reloadFunc_def Let_def)
  qed
  have 5: "watchEvents_start (s\<lparr>filePath := p\<rparr>) = (watchEvents_start s)\<lparr>filePath := p\<rparr>"
    by (simp add: watchEvents_start_def exitLoop_def Printf_def split: option.splits)
  from 1 2 3 4 5 show ?thesis by blast
qed

theorem watch_reads_dotenv_witness:
  "(files (snd (InitEnv otherConfig otherProcess)) ''.env'' = Some ''A=1'' \<and>
   filePath (snd (InitEnv otherConfig otherProcess)) = ''conf/app.env'' \<and>
   environ (snd (InitEnv otherConfig otherProcess)) ''B'' = Some ''2'' \<and>
   environ (snd (InitEnv otherConfig otherProcess)) ''A'' = None \<and>
   watchEvents_start (snd (InitEnv otherConfig otherProcess)) =
     (snd (InitEnv otherConfig otherProcess))
       \<lparr>phase := Running, timer := None, lastEvent := 0, oldEnv := parseEnvFile ''A=1''\<rparr> \<and>
   parseEnvFile ''A=1'' ''A'' = Some ''1'' \<and> parseEnvFile ''A=1'' ''B'' = None \<and>
   fst (InitEnv otherConfig (otherProcess\<lparr>files := (files otherProcess)(''.env'' := None)\<rparr>)) = None \<and>
   phase (watchEvents_start
     (snd (InitEnv otherConfig (otherProcess\<lparr>files := (files otherProcess)(''.env'' := None)\<rparr>)))) =
     Terminated \<and>
   watchStep (EventRecv {Write} startTime) (watchEvents_start
     (snd (InitEnv otherConfig (otherProcess\<lparr>files := (files otherProcess)(''.env'' := None)\<rparr>)))) =
   watchEvents_start
     (snd (InitEnv otherConfig (otherProcess\<lparr>files := (files otherProcess)(''.env'' := None)\<rparr>)))) \<and>
   (load rewritten = (None, snd (load rewritten)) \<and>
   files rewritten ''.env'' = Some ''A=5'' \<and>
   reloadFunc [''A''] [''A''] rewritten =
     (fold Printf (diffEnv (oldEnv rewritten) (parseEnvFile ''A=5'') [''A''] [''A''])
        (Printf ReloadOk (snd (load rewritten))))\<lparr>oldEnv := parseEnvFile ''A=5''\<rparr> \<and>
   printed (reloadFunc [''A''] [''A''] rewritten) =
     [(''[ENV] '', LoadingFrom ''/app/conf/app.env''),
      (''[ENV] '', StartingWatcher ''/app/conf/app.env''),
      (''[ENV] '', LoadingFrom ''/app/conf/app.env''),
      (''[ENV] '', ReloadOk),
      (''[ENV] '', ChangedVar ''A'' ''5'' ''1'')])"
proof -
  have a: "files (snd (InitEnv otherConfig otherProcess)) ''.env'' = Some ''A=1'' \<and>
   filePath (snd (InitEnv otherConfig otherProcess)) = ''conf/app.env'' \<and>
   environ (snd (InitEnv otherConfig otherProcess)) ''B'' = Some ''2'' \<and>
   environ (snd (InitEnv otherConfig otherProcess)) ''A'' = None \<and>
   watchEvents_start (snd (InitEnv otherConfig otherProcess)) =
     (snd (InitEnv otherConfig otherProcess))
       \<lparr>phase := Running, timer := None, lastEvent := 0, oldEnv := parseEnvFile ''A=1''\<rparr> \<and>
   parseEnvFile ''A=1'' ''A'' = Some ''1'' \<and> parseEnvFile ''A=1'' ''B'' = None \<and>
   fst (InitEnv otherConfig (otherProcess\<lparr>files := (files otherProcess)(''.env'' := None)\<rparr>)) = None \<and>
   phase (watchEvents_start
     (snd (InitEnv otherConfig (otherProcess\<lparr>files := (files otherProcess)(''.env'' := None)\<rparr>)))) =
     Terminated \<and>
   watchStep (EventRecv {Write} startTime) (watchEvents_start
     (snd (InitEnv otherConfig (otherProcess\<lparr>files := (files otherProcess)(''.env'' := None)\<rparr>)))) =
   watchEvents_start
     (snd (InitEnv otherConfig (otherProcess\<lparr>files := (files otherProcess)(''.env'' := None)\<rparr>)))"
  proof -
    let ?s = "snd (InitEnv otherConfig otherProcess)"
    let ?n = "snd (InitEnv otherConfig (otherProcess\<lparr>files := (files otherProcess)(''.env'' := None)\<rparr>))"
    have f: "files ?s ''.env'' = Some ''A=1''"
      by code_simp
    have g: "files ?n ''.env'' = None"
      by code_simp
    have v: "filePath ?s = ''conf/app.env''" "environ ?s ''B'' = Some ''2''" "environ ?s ''A'' = None"
      "parseEnvFile ''A=1'' ''A'' = Some ''1''" "parseEnvFile ''A=1'' ''B'' = None"
      "fst (InitEnv otherConfig (otherProcess\<lparr>files := (files otherProcess)(''.env'' := None)\<rparr>)) = None"
      by code_simp+
    note a = watch_reads_dotenv [of ?s "''A=1''" "{Write}" startTime ?s "[]" "[]" "[]"]
    note b = watch_reads_dotenv [of ?n "''A=1''" "{Write}" startTime ?n "[]" "[]" "[]"]
    from a f have 1: "watchEvents_start ?s =
        ?s\<lparr>phase := Running, timer := None, lastEvent := 0, oldEnv := parseEnvFile ''A=1''\<rparr>"
      by blast
    from b g have 2: "watchEvents_start ?n = exitLoop (Printf (FailedReadEnv (ReadError ''.env'')) ?n)"
      and 3: "watchStep (EventRecv {Write} startTime) (watchEvents_start ?n) = watchEvents_start ?n"
      by blast+
    have 4: "phase (watchEvents_start ?n) = Terminated"
      unfolding 2 by simp
    from f v 1 3 4 show ?thesis
      by blast
  qed
  have b: "load rewritten = (None, snd (load rewritten)) \<and>
   files rewritten ''.env'' = Some ''A=5'' \<and>
   reloadFunc [''A''] [''A''] rewritten =
     (fold Printf (diffEnv (oldEnv rewritten) (parseEnvFile ''A=5'') [''A''] [''A''])
        (Printf ReloadOk (snd (load rewritten))))\<lparr>oldEnv := parseEnvFile ''A=5''\<rparr> \<and>
   printed (reloadFunc [''A''] [''A''] rewritten) =
     [(''[ENV] '', LoadingFrom ''/app/conf/app.env''),
      (''[ENV] '', StartingWatcher ''/app/conf/app.env''),
      (''[ENV] '', LoadingFrom ''/app/conf/app.env''),
      (''[ENV] '', ReloadOk),
      (''[ENV] '', ChangedVar ''A'' ''5'' ''1'')]"
  proof -
    have "fst (load rewritten) = None"
      by code_simp
    then have l: "load rewritten = (None, snd (load rewritten))"
      by (simp add: prod_eq_iff)
    have f: "files rewritten ''.env'' = Some ''A=5''"
      by code_simp
    have pr: "printed (reloadFunc [''A''] [''A''] rewritten) =
       [(''[ENV] '', LoadingFrom ''/app/conf/app.env''),
        (''[ENV] '', StartingWatcher ''/app/conf/app.env''),
        (''[ENV] '', LoadingFrom ''/app/conf/app.env''),
        (''[ENV] '', ReloadOk),
        (''[ENV] '', ChangedVar ''A'' ''5'' ''1'')]"
      by code_simp
    from watch_reads_dotenv [of rewritten "''A=5''" "{}" 0 "snd (load rewritten)" "[''A'']" "[''A'']" "[]"] l f pr
    show ?thesis by blast
  qed
  from a b show ?thesis by blast
qed

text \<open>
  C6 as the code has it. When the event channel or the error channel is found closed, or
  the receive from the closed \<open>closeCh\<close> succeeds, the loop returns and the watcher is closed;
  the timer is left as it is, and a timer that is pending then still runs its function
  once its deadline is reached.
\<close>

theorem termination_keeps_timer:
  assumes "phase s = Running"
    and "i = EventsClosed \<or> i = ErrorsClosed \<or> (i = CloseRecv \<and> closeCh s = Some Closed)"
  shows "watchStep i s = exitLoop s \<and>
     phase (watchStep i s) = Terminated \<and>
     (case watcher (watchStep i s) of None \<Rightarrow> watcher s = None | Some w \<Rightarrow> closed w) \<and>
     timer (watchStep i s) = timer s \<and>
     (timer s = Some (Pending due) \<and> due \<le> now \<longrightarrow>
        watchStep (TimerFire now ksNew ksOld) (watchStep i s) =
          reloadFunc ksNew ksOld ((exitLoop s)\<lparr>timer := Some Fired\<rparr>))"
proof -
  have e: "watchStep i s = exitLoop s"
    using assms by (auto simp: watchStep_def selectCase_def)
  have w: "(case watcher (exitLoop s) of None \<Rightarrow> watcher s = None | Some w \<Rightarrow> closed w)"
    by (simp add: exitLoop_def split: option.splits)
  show ?thesis
    unfolding e using w by (simp add: watchStep_def timerFire_def)
qed

theorem termination_keeps_timer_witness:
  "phase (accepted\<lparr>closeCh := Some Closed\<rparr>) = Running \<and>
   closeCh (accepted\<lparr>closeCh := Some Closed\<rparr>) = Some Closed \<and>
   timer (accepted\<lparr>closeCh := Some Closed\<rparr>) = Some (Pending (startTime + Second)) \<and>
   phase (watchStep CloseRecv (accepted\<lparr>closeCh := Some Closed\<rparr>)) = Terminated \<and>
   timer (watchStep CloseRecv (accepted\<lparr>closeCh := Some Closed\<rparr>)) =
     Some (Pending (startTime + Second)) \<and>
   watchStep (TimerFire (startTime + Second) [''A''] [''A''])
       (watchStep CloseRecv (accepted\<lparr>closeCh := Some Closed\<rparr>)) =
     reloadFunc [''A''] [''A'']
       ((exitLoop (accepted\<lparr>closeCh := Some Closed\<rparr>))\<lparr>timer := Some Fired\<rparr>)"
proof -
  have p: "phase (accepted\<lparr>closeCh := Some Closed\<rparr>) = Running"
    by code_simp
  have c: "CloseRecv = EventsClosed \<or> CloseRecv = ErrorsClosed \<or>
      (CloseRecv = CloseRecv \<and> closeCh (accepted\<lparr>closeCh := Some Closed\<rparr>) = Some Closed)"
    by simp
  have t: "timer (accepted\<lparr>closeCh := Some Closed\<rparr>) = Some (Pending (startTime + Second))"
    by code_simp
  have n: "startTime + Second \<le> startTime + Second"
    by simp
  have c2: "closeCh (accepted\<lparr>closeCh := Some Closed\<rparr>) = Some Closed"
    by simp
  note th = termination_keeps_timer
    [OF p c, of "startTime + Second" "startTime + Second" "[''A'']" "[''A'']"]
  from th have a: "phase (watchStep CloseRecv (accepted\<lparr>closeCh := Some Closed\<rparr>)) = Terminated"
    by blast
  from th t have b: "timer (watchStep CloseRecv (accepted\<lparr>closeCh := Some Closed\<rparr>)) =
      Some (Pending (startTime + Second))"
    by simp
  from th t n have d: "watchStep (TimerFire (startTime + Second) [''A''] [''A''])
       (watchStep CloseRecv (accepted\<lparr>closeCh := Some Closed\<rparr>)) =
     reloadFunc [''A''] [''A'']
       ((exitLoop (accepted\<lparr>closeCh := Some Closed\<rparr>))\<lparr>timer := Some Fired\<rparr>)"
    by blast
  from p c2 t a b d show ?thesis
    by blast
qed

text \<open>
  C6 as claimed fails: a write is accepted, \<open>Close\<close> is called and the loop returns while
  the timer is pending; the timer is still pending afterwards, and at its deadline it loads
  the file again.
\<close>

theorem reload_fires_after_shutdown:
  "\<not> isl (Close accepted) \<and>
   phase (watchStep CloseRecv (projr (Close accepted))) = Terminated \<and>
   map_option closed (watcher (watchStep CloseRecv (projr (Close accepted)))) = Some True \<and>
   timer (watchStep CloseRecv (projr (Close accepted))) = Some (Pending (startTime + Second)) \<and>
   printed (watchStep (TimerFire (startTime + Second) [''A''] [''A''])
       (watchStep CloseRecv (projr (Close accepted)))) =
     printed (watchStep CloseRecv (projr (Close accepted))) @
       [(''[APP] '', LoadingFrom ''/app/.env''), (''[APP] '', ReloadOk)]"
  by code_simp

text \<open>
  C3. The claim: every load writes each parsed pair into the environment and replaces the
  value a key had. The package loads with \<^verbatim>\<open>godotenv.Load\<close>, which leaves a variable that
  is set as it is: after the file changes from \<^verbatim>\<open>A=1\<close> to \<^verbatim>\<open>A=2\<close> the reload reports
  success and the change, and the environment still holds the old value.
\<close>

theorem reload_keeps_old_value:
  "fst (InitEnv demoConfig (process ''A=1'')) = None \<and>
   printed (watchStep (TimerFire (startTime + Second) [''A''] [''A''])
      (watchStep (EventRecv {Write} startTime) (writeEnvFile ''A=2'' (started ''A=1'')))) =
     [(''[APP] '', LoadingFrom ''/app/.env''), (''[APP] '', StartingWatcher ''/app/.env''),
      (''[APP] '', LoadingFrom ''/app/.env''), (''[APP] '', ReloadOk),
      (''[APP] '', ChangedVar ''A'' ''2'' ''1'')] \<and>
   environ (watchStep (TimerFire (startTime + Second) [''A''] [''A''])
      (watchStep (EventRecv {Write} startTime) (writeEnvFile ''A=2'' (started ''A=1'')))) ''A'' =
     Some ''1''"
  by code_simp

section \<open>The differ\<close>

lemma set_diffNew:
  "set ks = dom newEnv \<Longrightarrow>
   set (diffNew old newEnv ks) =
     {NewVar k v |k v. newEnv k = Some v \<and> old k = None} \<union>
     {ChangedVar k nv ov |k nv ov. old k = Some ov \<and> newEnv k = Some nv \<and> ov \<noteq> nv}"
  by (auto simp: diffNew_def split: option.splits if_splits)

lemma set_diffOld:
  "set ks = dom old \<Longrightarrow>
   set (diffOld old newEnv ks) = {RemovedVar k |k. old k \<noteq> None \<and> newEnv k = None}"
  by (auto simp: diffOld_def split: option.splits if_splits)

lemma diffNew_Cons:
  "diffNew old newEnv (k # ks) = diffNew old newEnv [k] @ diffNew old newEnv ks"
  by (simp add: diffNew_def)

lemma diffOld_Cons:
  "diffOld old newEnv (k # ks) = diffOld old newEnv [k] @ diffOld old newEnv ks"
  by (simp add: diffOld_def)

lemma diffNew_keys: "m \<in> set (diffNew old newEnv ks) \<Longrightarrow> msgKey m \<in> set ks"
  by (auto simp: diffNew_def split: option.splits if_splits)

lemma diffOld_keys: "m \<in> set (diffOld old newEnv ks) \<Longrightarrow> msgKey m \<in> set ks"
  by (auto simp: diffOld_def split: option.splits if_splits)

lemma distinct_diffNew: "distinct ks \<Longrightarrow> distinct (diffNew old newEnv ks)"
proof (induction ks)
  case Nil
  show ?case by (simp add: diffNew_def)
next
  case (Cons k ks)
  have 1: "distinct (diffNew old newEnv [k])"
    by (simp add: diffNew_def split: option.splits)
  have 2: "set (diffNew old newEnv [k]) \<inter> set (diffNew old newEnv ks) = {}"
    using Cons.prems diffNew_keys [of _ old newEnv "[k]"] diffNew_keys [of _ old newEnv ks]
    by fastforce
  from Cons 1 2 show ?case
    by (subst diffNew_Cons) simp
qed

lemma distinct_diffOld: "distinct ks \<Longrightarrow> distinct (diffOld old newEnv ks)"
proof (induction ks)
  case Nil
  show ?case by (simp add: diffOld_def)
next
  case (Cons k ks)
  have 1: "distinct (diffOld old newEnv [k])"
    by (simp add: diffOld_def split: option.splits)
  have 2: "set (diffOld old newEnv [k]) \<inter> set (diffOld old newEnv ks) = {}"
    using Cons.prems diffOld_keys [of _ old newEnv "[k]"] diffOld_keys [of _ old newEnv ks]
    by fastforce
  from Cons 1 2 show ?case
    by (subst diffOld_Cons) simp
qed

lemma diffNew_diffOld_disjoint: "set (diffNew old newEnv ks) \<inter> set (diffOld old newEnv ks') = {}"
  by (auto simp: diffNew_def diffOld_def split: option.splits if_splits)

text \<open>
  C5. For an old and a new mapping, each ranged over in some order, the lines of the
  comparison are: a line for a new variable exactly for the keys of the new mapping that
  the old one lacks, a line for a changed variable, with both values, exactly for the keys
  of both whose values differ, and a line for a removed variable exactly for the keys of
  the old mapping that the new one lacks; nothing else, and no line twice.
\<close>

theorem diff_correct:
  assumes "rangeOrder newEnv ksNew" and "rangeOrder old ksOld"
  shows "set (diffEnv old newEnv ksNew ksOld) =
       {NewVar k v |k v. newEnv k = Some v \<and> old k = None} \<union>
       {ChangedVar k nv ov |k nv ov. old k = Some ov \<and> newEnv k = Some nv \<and> ov \<noteq> nv} \<union>
       {RemovedVar k |k. old k \<noteq> None \<and> newEnv k = None} \<and>
     distinct (diffEnv old newEnv ksNew ksOld)"
proof -
  from assms have n: "distinct ksNew" "set ksNew = dom newEnv"
    and o: "distinct ksOld" "set ksOld = dom old"
    by (simp_all add: rangeOrder_def)
  have "set (diffEnv old newEnv ksNew ksOld) =
      set (diffNew old newEnv ksNew) \<union> set (diffOld old newEnv ksOld)"
    by (simp add: diffEnv_def)
  then have s: "set (diffEnv old newEnv ksNew ksOld) =
       {NewVar k v |k v. newEnv k = Some v \<and> old k = None} \<union>
       {ChangedVar k nv ov |k nv ov. old k = Some ov \<and> newEnv k = Some nv \<and> ov \<noteq> nv} \<union>
       {RemovedVar k |k. old k \<noteq> None \<and> newEnv k = None}"
    by (simp only: set_diffNew [OF n(2)] set_diffOld [OF o(2)])
  have d: "distinct (diffEnv old newEnv ksNew ksOld)"
    using distinct_diffNew [OF n(1)] distinct_diffOld [OF o(1)] diffNew_diffOld_disjoint
    by (simp add: diffEnv_def)
  from s d show ?thesis by simp
qed

theorem diff_correct_witness:
  "rangeOrder [''A'' \<mapsto> ''1'', ''B'' \<mapsto> ''3'', ''C'' \<mapsto> ''4''] [''C'', ''A'', ''B''] \<and>
   rangeOrder [''A'' \<mapsto> ''1'', ''B'' \<mapsto> ''2''] [''B'', ''A''] \<and>
   diffEnv [''A'' \<mapsto> ''1'', ''B'' \<mapsto> ''2''] [''A'' \<mapsto> ''1'', ''B'' \<mapsto> ''3'', ''C'' \<mapsto> ''4'']
     [''C'', ''A'', ''B''] [''B'', ''A''] = [NewVar ''C'' ''4'', ChangedVar ''B'' ''3'' ''2''] \<and>
   distinct (diffEnv [''A'' \<mapsto> ''1'', ''B'' \<mapsto> ''2''] [''A'' \<mapsto> ''1'', ''B'' \<mapsto> ''3'', ''C'' \<mapsto> ''4'']
     [''C'', ''A'', ''B''] [''B'', ''A'']) \<and>
   {NewVar k v |k v. [''A'' \<mapsto> ''1'', ''B'' \<mapsto> ''3'', ''C'' \<mapsto> ''4''] k = Some v \<and> [''A'' \<mapsto> ''1'', ''B'' \<mapsto> ''2''] k = None} \<union>
   {ChangedVar k nv ov |k nv ov. [''A'' \<mapsto> ''1'', ''B'' \<mapsto> ''2''] k = Some ov \<and>
       [''A'' \<mapsto> ''1'', ''B'' \<mapsto> ''3'', ''C'' \<mapsto> ''4''] k = Some nv \<and> ov \<noteq> nv} \<union>
   {RemovedVar k |k. [''A'' \<mapsto> ''1'', ''B'' \<mapsto> ''2''] k \<noteq> None \<and>
       [''A'' \<mapsto> ''1'', ''B'' \<mapsto> ''3'', ''C'' \<mapsto> ''4''] k = None} =
   {NewVar ''C'' ''4'', ChangedVar ''B'' ''3'' ''2''}"
proof -
  have n: "rangeOrder [''A'' \<mapsto> ''1'', ''B'' \<mapsto> ''3'', ''C'' \<mapsto> ''4''] [''C'', ''A'', ''B'']"
    by (auto simp: rangeOrder_def)
  have o: "rangeOrder [''A'' \<mapsto> ''1'', ''B'' \<mapsto> ''2''] [''B'', ''A'']"
    by (auto simp: rangeOrder_def)
  have v: "diffEnv [''A'' \<mapsto> ''1'', ''B'' \<mapsto> ''2''] [''A'' \<mapsto> ''1'', ''B'' \<mapsto> ''3'', ''C'' \<mapsto> ''4'']
     [''C'', ''A'', ''B''] [''B'', ''A''] = [NewVar ''C'' ''4'', ChangedVar ''B'' ''3'' ''2'']"
    by (simp add: diffEnv_def diffNew_def diffOld_def)
  from diff_correct [OF n o] n o v show ?thesis
    by simp
qed

section \<open>Parsing\<close>

lemma trimPrefixes_suffix: "suffix (trimPrefixes ps s) s"
proof (induction ps s rule: trimPrefixes.induct)
  case (1 ps s)
  show ?case
  proof (cases "find (\<lambda>p. p \<noteq> [] \<and> prefix p s) ps")
    case None
    then show ?thesis
      by (subst trimPrefixes.simps) simp
  next
    case (Some p)
    have "suffix (trimPrefixes ps (drop (length p) s)) (drop (length p) s)"
      using "1.IH" [OF Some] .
    moreover have "suffix (drop (length p) s) s"
      by (rule suffix_drop)
    ultimately have "suffix (trimPrefixes ps (drop (length p) s)) s"
      by (rule suffix_order.trans)
    with Some show ?thesis
      by (subst trimPrefixes.simps) simp
  qed
qed

lemma set_trimPrefixes: "set (trimPrefixes ps s) \<subseteq> set s"
  using trimPrefixes_suffix [of ps s] by (rule set_mono_suffix)

lemma set_TrimSpace: "set (TrimSpace s) \<subseteq> set s"
proof -
  have "set (TrimRight (TrimLeft s)) \<subseteq> set (TrimLeft s)"
    using set_trimPrefixes [of "map rev spaceRunes" "rev (TrimLeft s)"]
    by (simp add: TrimRight_def)
  moreover have "set (TrimLeft s) \<subseteq> set s"
    by (simp add: TrimLeft_def set_trimPrefixes)
  ultimately show ?thesis
    by (simp add: TrimSpace_def)
qed

lemma SplitN2_none: "sep \<notin> set s \<Longrightarrow> SplitN2 s sep = [s]"
proof -
  assume "sep \<notin> set s"
  then have "dropWhile (\<lambda>c. c \<noteq> sep) s = []"
    by auto
  then show ?thesis
    unfolding SplitN2_def by (simp only: list.case)
qed

lemma SplitN2_some:
  "sep \<in> set s \<Longrightarrow>
   SplitN2 s sep = [takeWhile (\<lambda>c. c \<noteq> sep) s, tl (dropWhile (\<lambda>c. c \<noteq> sep) s)]"
proof -
  assume "sep \<in> set s"
  then have "dropWhile (\<lambda>c. c \<noteq> sep) s \<noteq> []"
    by auto
  then show ?thesis
    by (cases "dropWhile (\<lambda>c. c \<noteq> sep) s") (simp_all add: SplitN2_def)
qed

lemma parseLine_skip:
  assumes "TrimSpace l = [] \<or> HasPrefix (TrimSpace l) ''#'' \<or> CHR ''='' \<notin> set l"
  shows "parseLine l env = env"
proof (cases "TrimSpace l = [] \<or> HasPrefix (TrimSpace l) ''#''")
  case True
  then show ?thesis
    by (simp add: parseLine_def Let_def)
next
  case False
  with assms have "CHR ''='' \<notin> set l" by blast
  with set_TrimSpace [of l] have "CHR ''='' \<notin> set (TrimSpace l)" by blast
  then have "SplitN2 (TrimSpace l) CHR ''='' = [TrimSpace l]"
    by (rule SplitN2_none)
  then show ?thesis
    by (simp add: parseLine_def Let_def)
qed

lemma parseLine_entry:
  assumes "parseLine l env k = Some v"
  shows "env k = Some v \<or> entryOf l k v"
proof (cases "TrimSpace l = [] \<or> HasPrefix (TrimSpace l) ''#'' \<or> CHR ''='' \<notin> set (TrimSpace l)")
  case True
  then have "parseLine l env = env"
    by (auto simp: parseLine_def Let_def SplitN2_none)
  with assms show ?thesis by simp
next
  case False
  then have e: "CHR ''='' \<in> set (TrimSpace l)" by blast
  with set_TrimSpace [of l] have el: "CHR ''='' \<in> set l" by blast
  have "parseLine l env =
      env(TrimSpace (takeWhile (\<lambda>c. c \<noteq> CHR ''='') (TrimSpace l)) \<mapsto>
          TrimSpace (tl (dropWhile (\<lambda>c. c \<noteq> CHR ''='') (TrimSpace l))))"
    using False by (simp add: parseLine_def Let_def SplitN2_some [OF e])
  with assms False el show ?thesis
    by (auto simp: entryOf_def split: if_splits)
qed

lemma fold_parseLine_entry:
  "fold parseLine ls env k = Some v \<Longrightarrow> env k = Some v \<or> (\<exists>l\<in>set ls. entryOf l k v)"
proof (induction ls arbitrary: env)
  case Nil
  then show ?case by simp
next
  case (Cons l ls)
  from Cons.prems have "fold parseLine ls (parseLine l env) k = Some v" by simp
  from Cons.IH [OF this] parseLine_entry [of l env k v] show ?case
    by auto
qed

lemma fold_parseLine_filter:
  "fold parseLine ls env =
   fold parseLine
     (filter (\<lambda>l. TrimSpace l \<noteq> [] \<and> \<not> HasPrefix (TrimSpace l) ''#'' \<and> CHR ''='' \<in> set l) ls) env"
proof (induction ls arbitrary: env)
  case Nil
  show ?case by simp
next
  case (Cons l ls)
  show ?case
  proof (cases "TrimSpace l \<noteq> [] \<and> \<not> HasPrefix (TrimSpace l) ''#'' \<and> CHR ''='' \<in> set l")
    case True
    then show ?thesis using Cons.IH by simp
  next
    case False
    then have "parseLine l env = env"
      by (intro parseLine_skip) blast
    with False show ?thesis using Cons.IH by simp
  qed
qed

lemma find_only:
  assumes "r \<in> set xs" and "P r" and "\<And>x. x \<in> set xs \<Longrightarrow> P x \<Longrightarrow> x = r"
  shows "find P xs = Some r"
  using assms
proof (induction xs)
  case Nil
  then show ?case by simp
next
  case (Cons a xs)
  show ?case
  proof (cases "P a")
    case True
    then have "a = r"
      using Cons.prems(3) [of a] by simp
    with True show ?thesis by simp
  next
    case False
    with Cons.prems(1,2) have "r \<in> set xs"
      by auto
    then have "find P xs = Some r"
      using Cons.prems(2,3) by (intro Cons.IH) simp_all
    with False show ?thesis by simp
  qed
qed

lemma spaceRunes_prefix_free:
  "list_all (\<lambda>p. list_all (\<lambda>q. p \<noteq> [] \<and> (\<not> prefix p q \<or> p = q)) spaceRunes) spaceRunes"
  by code_simp

lemma spaceRunes_no_hash: "list_all (\<lambda>p. CHR ''#'' \<notin> set p) spaceRunes"
  by code_simp

lemma find_rune:
  assumes "r \<in> set spaceRunes"
  shows "find (\<lambda>p. p \<noteq> [] \<and> prefix p (r @ t)) spaceRunes = Some r"
proof (rule find_only)
  show "r \<in> set spaceRunes" by fact
  from assms spaceRunes_prefix_free have n: "r \<noteq> []"
    by (simp add: list_all_iff)
  then show "r \<noteq> [] \<and> prefix r (r @ t)" by simp
  fix x
  assume x: "x \<in> set spaceRunes" and p: "x \<noteq> [] \<and> prefix x (r @ t)"
  have "prefix r (r @ t)" by simp
  with p have "prefix x r \<or> prefix r x"
    using prefix_same_cases [of x "r @ t" r] by blast
  moreover from x assms spaceRunes_prefix_free have "\<not> prefix x r \<or> x = r"
    by (simp add: list_all_iff)
  moreover from x assms spaceRunes_prefix_free have "\<not> prefix r x \<or> r = x"
    by (simp add: list_all_iff)
  ultimately show "x = r" by blast
qed

lemma trimPrefixes_Nil: "trimPrefixes ps [] = []"
proof -
  have "find (\<lambda>p. p \<noteq> [] \<and> prefix p []) ps = None"
    by (auto simp: find_None_iff)
  then show ?thesis
    by (subst trimPrefixes.simps) (simp only: option.case)
qed

lemma TrimLeft_rune:
  assumes "r \<in> set spaceRunes"
  shows "TrimLeft (r @ t) = TrimLeft t"
proof -
  have "trimPrefixes spaceRunes (r @ t) = trimPrefixes spaceRunes (drop (length r) (r @ t))"
    by (subst trimPrefixes.simps) (simp only: find_rune [OF assms] option.case)
  then show ?thesis
    by (simp add: TrimLeft_def)
qed

lemma TrimLeft_concat: "set rs \<subseteq> set spaceRunes \<Longrightarrow> TrimLeft (concat rs @ t) = TrimLeft t"
proof (induction rs)
  case Nil
  show ?case by simp
next
  case (Cons r rs)
  then have r: "r \<in> set spaceRunes" and rs: "set rs \<subseteq> set spaceRunes"
    by simp_all
  have "TrimLeft (concat (r # rs) @ t) = TrimLeft (r @ (concat rs @ t))"
    by simp
  also have "\<dots> = TrimLeft (concat rs @ t)"
    by (rule TrimLeft_rune [OF r])
  also have "\<dots> = TrimLeft t"
    by (rule Cons.IH [OF rs])
  finally show ?case .
qed

lemma TrimLeft_hash: "TrimLeft (CHR ''#'' # t) = CHR ''#'' # t"
proof -
  have "\<not> (p \<noteq> [] \<and> prefix p (CHR ''#'' # t))" if "p \<in> set spaceRunes" for p
  proof
    assume a: "p \<noteq> [] \<and> prefix p (CHR ''#'' # t)"
    then have "CHR ''#'' \<in> set p"
      by (cases p) auto
    with that spaceRunes_no_hash show False
      by (simp add: list_all_iff)
  qed
  then have "find (\<lambda>p. p \<noteq> [] \<and> prefix p (CHR ''#'' # t)) spaceRunes = None"
    by (simp only: find_None_iff) blast
  then show ?thesis
    unfolding TrimLeft_def by (subst trimPrefixes.simps) (simp only: option.case)
qed


lemma trimPrefixes_keeps:
  assumes "\<And>p. p \<in> set ps \<Longrightarrow> c \<notin> set p"
  shows "\<exists>zs. trimPrefixes ps (ys @ c # ws) = zs @ c # ws"
proof (induction "length ys" arbitrary: ys rule: less_induct)
  case less
  show ?case
  proof (cases "find (\<lambda>p. p \<noteq> [] \<and> prefix p (ys @ c # ws)) ps")
    case None
    then have "trimPrefixes ps (ys @ c # ws) = ys @ c # ws"
      by (subst trimPrefixes.simps) (simp only: option.case)
    then show ?thesis by blast
  next
    case (Some p)
    then have p: "p \<in> set ps" "p \<noteq> []" "prefix p (ys @ c # ws)"
      by (auto simp: find_Some_iff)
    have "prefix p ys"
    proof -
      from p(3) consider "prefix p ys" | us where "p = ys @ us" "prefix us (c # ws)"
        by (auto simp: prefix_append)
      then show ?thesis
      proof cases
        case 1
        then show ?thesis .
      next
        case 2
        have "c \<notin> set us"
          using assms [OF p(1)] 2(1) by simp
        with 2(2) have "us = []"
          by (cases us) auto
        with 2(1) show ?thesis by simp
      qed
    qed
    then obtain ys' where ys: "ys = p @ ys'"
      by (auto simp: prefix_def)
    with p(2) have "length ys' < length ys" by simp
    from less [OF this] obtain zs where z: "trimPrefixes ps (ys' @ c # ws) = zs @ c # ws"
      by blast
    have "drop (length p) (ys @ c # ws) = ys' @ c # ws"
      by (simp add: ys)
    then have "trimPrefixes ps (ys @ c # ws) = trimPrefixes ps (ys' @ c # ws)"
      by (subst trimPrefixes.simps) (simp only: Some option.case)
    with z show ?thesis by simp
  qed
qed

lemma TrimRight_hash: "\<exists>zs. TrimRight (CHR ''#'' # t) = CHR ''#'' # zs"
proof -
  have "CHR ''#'' \<notin> set p" if "p \<in> set (map rev spaceRunes)" for p
  proof -
    from that obtain q where "q \<in> set spaceRunes" "p = rev q"
      by auto
    with spaceRunes_no_hash show ?thesis
      by (simp add: list_all_iff)
  qed
  from trimPrefixes_keeps [of "map rev spaceRunes" "CHR ''#''" "rev t" "[]", OF this]
  obtain zs where "trimPrefixes (map rev spaceRunes) (rev t @ [CHR ''#'']) = zs @ [CHR ''#'']"
    by blast
  then have "TrimRight (CHR ''#'' # t) = CHR ''#'' # rev zs"
    by (simp add: TrimRight_def)
  then show ?thesis by blast
qed

lemma TrimSpace_blank:
  assumes "set rs \<subseteq> set spaceRunes"
  shows "TrimSpace (concat rs) = []"
proof -
  have "TrimLeft (concat rs @ []) = TrimLeft []"
    by (rule TrimLeft_concat [OF assms])
  then have "TrimLeft (concat rs) = []"
    by (simp add: TrimLeft_def trimPrefixes_Nil)
  then show ?thesis
    by (simp add: TrimSpace_def TrimRight_def trimPrefixes_Nil)
qed

lemma TrimSpace_comment:
  assumes "set rs \<subseteq> set spaceRunes"
  shows "HasPrefix (TrimSpace (concat rs @ CHR ''#'' # t)) ''#''"
proof -
  have "TrimLeft (concat rs @ CHR ''#'' # t) = CHR ''#'' # t"
    by (simp only: TrimLeft_concat [OF assms] TrimLeft_hash)
  moreover obtain zs where "TrimRight (CHR ''#'' # t) = CHR ''#'' # zs"
    using TrimRight_hash by blast
  ultimately have "TrimSpace (concat rs @ CHR ''#'' # t) = CHR ''#'' # zs"
    by (simp only: TrimSpace_def)
  then show ?thesis
    by (simp add: HasPrefix_def)
qed

text \<open>
  C8. For every text: the lines that are blank after trimming, that start with \<^verbatim>\<open>#\<close>
  after trimming, or that hold no \<^verbatim>\<open>=\<close> can be left out without changing the result;
  every entry of the result comes from a line that holds \<^verbatim>\<open>=\<close>, with the key the
  trimmed text before the first \<^verbatim>\<open>=\<close> of the trimmed line and the value the trimmed text
  after it; and a line of white space only is blank after trimming, and a line whose first
  character after its white space is \<^verbatim>\<open>#\<close> starts with \<^verbatim>\<open>#\<close> after trimming.
\<close>

theorem parseEnvFile_entries:
  "parseEnvFile content =
     fold parseLine
       (filter (\<lambda>l. TrimSpace l \<noteq> [] \<and> \<not> HasPrefix (TrimSpace l) ''#'' \<and> CHR ''='' \<in> set l)
          (Split content CHR 0x0A)) Map.empty \<and>
   (parseEnvFile content k = Some v \<longrightarrow>
      (\<exists>l\<in>set (Split content CHR 0x0A).
          TrimSpace l \<noteq> [] \<and> \<not> HasPrefix (TrimSpace l) ''#'' \<and> CHR ''='' \<in> set l \<and>
          k = TrimSpace (takeWhile (\<lambda>c. c \<noteq> CHR ''='') (TrimSpace l)) \<and>
          v = TrimSpace (tl (dropWhile (\<lambda>c. c \<noteq> CHR ''='') (TrimSpace l))))) \<and>
   (set rs \<subseteq> set spaceRunes \<longrightarrow>
      TrimSpace (concat rs) = [] \<and> HasPrefix (TrimSpace (concat rs @ CHR ''#'' # t)) ''#'')"
proof -
  have 1: "parseEnvFile content =
     fold parseLine
       (filter (\<lambda>l. TrimSpace l \<noteq> [] \<and> \<not> HasPrefix (TrimSpace l) ''#'' \<and> CHR ''='' \<in> set l)
          (Split content CHR 0x0A)) Map.empty"
    unfolding parseEnvFile_def by (rule fold_parseLine_filter)
  have 2: "\<exists>l\<in>set (Split content CHR 0x0A). entryOf l k v"
    if "parseEnvFile content k = Some v"
    using fold_parseLine_entry [of "Split content CHR 0x0A" Map.empty k v] that
    by (simp add: parseEnvFile_def)
  have 3: "TrimSpace (concat rs) = [] \<and> HasPrefix (TrimSpace (concat rs @ CHR ''#'' # t)) ''#''"
    if "set rs \<subseteq> set spaceRunes"
    using TrimSpace_blank [OF that] TrimSpace_comment [OF that] by blast
  from 1 2 3 show ?thesis
    unfolding entryOf_def by blast
qed

theorem parseEnvFile_entries_witness:
  "Split ''# c\<newline>  \<newline> A = 1 \<newline>noeq\<newline>B=x=y'' CHR 0x0A =
     [''# c'', ''  '', '' A = 1 '', ''noeq'', ''B=x=y''] \<and>
   parseEnvFile ''# c\<newline>  \<newline> A = 1 \<newline>noeq\<newline>B=x=y'' ''B'' = Some ''x=y'' \<and>
   parseEnvFile ''# c\<newline>  \<newline> A = 1 \<newline>noeq\<newline>B=x=y'' ''A'' = Some ''1'' \<and>
   filter (\<lambda>l. TrimSpace l \<noteq> [] \<and> \<not> HasPrefix (TrimSpace l) ''#'' \<and> CHR ''='' \<in> set l)
     (Split ''# c\<newline>  \<newline> A = 1 \<newline>noeq\<newline>B=x=y'' CHR 0x0A) = ['' A = 1 '', ''B=x=y''] \<and>
   parseEnvFile ''# c\<newline>  \<newline> A = 1 \<newline>noeq\<newline>B=x=y'' =
     fold parseLine ['' A = 1 '', ''B=x=y''] Map.empty \<and>
   (\<exists>l\<in>set (Split ''# c\<newline>  \<newline> A = 1 \<newline>noeq\<newline>B=x=y'' CHR 0x0A).
      TrimSpace l \<noteq> [] \<and> \<not> HasPrefix (TrimSpace l) ''#'' \<and> CHR ''='' \<in> set l \<and>
      ''B'' = TrimSpace (takeWhile (\<lambda>c. c \<noteq> CHR ''='') (TrimSpace l)) \<and>
      ''x=y'' = TrimSpace (tl (dropWhile (\<lambda>c. c \<noteq> CHR ''='') (TrimSpace l)))) \<and>
   set ['' '', '' ''] \<subseteq> set spaceRunes \<and>
   TrimSpace (concat ['' '', '' '']) = [] \<and>
   HasPrefix (TrimSpace (concat ['' '', '' ''] @ CHR ''#'' # '' c'')) ''#''"
proof -
  let ?c = "''# c\<newline>  \<newline> A = 1 \<newline>noeq\<newline>B=x=y''"
  have s: "Split ?c CHR 0x0A = [''# c'', ''  '', '' A = 1 '', ''noeq'', ''B=x=y'']"
    by code_simp
  have b: "parseEnvFile ?c ''B'' = Some ''x=y''"
    by code_simp
  have a: "parseEnvFile ?c ''A'' = Some ''1''"
    by code_simp
  have f: "filter (\<lambda>l. TrimSpace l \<noteq> [] \<and> \<not> HasPrefix (TrimSpace l) ''#'' \<and> CHR ''='' \<in> set l)
     (Split ?c CHR 0x0A) = ['' A = 1 '', ''B=x=y'']"
    by code_simp
  have w: "set ['' '', '' ''] \<subseteq> set spaceRunes"
    by (simp add: spaceRunes_def)
  note th = parseEnvFile_entries [of ?c "''B''" "''x=y''" "['' '', '' '']" "'' c''"]
  from th w have 3: "TrimSpace (concat ['' '', '' '']) = []"
    and 4: "HasPrefix (TrimSpace (concat ['' '', '' ''] @ CHR ''#'' # '' c'')) ''#''"
    by blast+
  from th have 1: "parseEnvFile ?c = fold parseLine ['' A = 1 '', ''B=x=y''] Map.empty"
    unfolding f by blast
  from th b have 2: "\<exists>l\<in>set (Split ?c CHR 0x0A).
      TrimSpace l \<noteq> [] \<and> \<not> HasPrefix (TrimSpace l) ''#'' \<and> CHR ''='' \<in> set l \<and>
      ''B'' = TrimSpace (takeWhile (\<lambda>c. c \<noteq> CHR ''='') (TrimSpace l)) \<and>
      ''x=y'' = TrimSpace (tl (dropWhile (\<lambda>c. c \<noteq> CHR ''='') (TrimSpace l)))"
    by blast
  from s b a f 1 2 w 3 4 show ?thesis
    by blast
qed

end
